theory Spec2Isabelle
  imports Main "HOL-Library.Char_ord" "HOL-Library.List_Lexorder" "HOL-Library.Product_Lexorder"
    "HOL-Library.Multiset"
begin

section \<open>Strings and paths\<close>

text \<open>
  Python strings are modelled as \<^typ>\<open>string\<close>; the box-drawing glyphs of the tree are
  written as their UTF-8 bytes, which is what \<open>write_text(..., encoding="utf-8")\<close> puts in
  the file. Case mapping (\<open>str.lower\<close>) and whitespace (\<open>str.strip\<close>) are modelled on
  ASCII; every other character is left as it is.

  A \<open>pathlib.Path\<close> relative to the scan root is the list of its parts.
\<close>

type_synonym path = "string list"

definition lower_char :: "char \<Rightarrow> char" where
  "lower_char c =
     (case map_of (zip ''ABCDEFGHIJKLMNOPQRSTUVWXYZ'' ''abcdefghijklmnopqrstuvwxyz'') c of
        None \<Rightarrow> c
      | Some d \<Rightarrow> d)"

definition lower :: "string \<Rightarrow> string" where
  "lower s = map lower_char s"

definition is_upper :: "char \<Rightarrow> bool" where
  "is_upper c = (c \<in> set ''ABCDEFGHIJKLMNOPQRSTUVWXYZ'')"

definition is_space :: "char \<Rightarrow> bool" where
  "is_space c = (c \<in> set [CHR 0x09, CHR 0x0A, CHR 0x0B, CHR 0x0C, CHR 0x0D,
                           CHR 0x1C, CHR 0x1D, CHR 0x1E, CHR 0x1F, CHR 0x20])"

definition strip :: "string \<Rightarrow> string" where
  "strip s = rev (dropWhile is_space (rev (dropWhile is_space s)))"

text \<open>\<open>s.split(",")\<close>: always at least one part.\<close>

fun split_comma :: "string \<Rightarrow> string list" where
  "split_comma [] = [[]]"
| "split_comma (c # cs) =
     (if c = CHR '','' then [] # split_comma cs
      else (case split_comma cs of
              [] \<Rightarrow> [[c]]
            | part # parts \<Rightarrow> (c # part) # parts))"

definition startswith :: "string \<Rightarrow> string \<Rightarrow> bool" where
  "startswith s p = (take (length p) s = p)"

text \<open>\<open>s.rfind(c)\<close>: the index of the last occurrence, or \<open>-1\<close>.\<close>

fun find_first :: "char \<Rightarrow> string \<Rightarrow> nat option" where
  "find_first c [] = None"
| "find_first c (x # xs) =
     (if x = c then Some 0 else map_option Suc (find_first c xs))"

definition rfind :: "string \<Rightarrow> char \<Rightarrow> int" where
  "rfind s c =
     (case find_first c (rev s) of
        None \<Rightarrow> - 1
      | Some j \<Rightarrow> int (length s) - 1 - int j)"

text \<open>
  \<open>PurePath.suffix\<close> (CPython up to 3.13): the part of the name from its last dot, when
  that dot is neither the first nor the last character.
\<close>

definition suffix :: "string \<Rightarrow> string" where
  "suffix name =
     (let i = rfind name (CHR ''.'')
      in if 0 < i \<and> i < int (length name) - 1 then drop (nat i) name else [])"

text \<open>\<open>PurePath.name\<close>: the last part, or the empty string.\<close>

definition path_name :: "path \<Rightarrow> string" where
  "path_name ps = (if ps = [] then [] else last ps)"

text \<open>\<open>PurePath.as_posix()\<close>: the parts joined by forward slashes.\<close>

fun as_posix :: "path \<Rightarrow> string" where
  "as_posix [] = ''.''"
| "as_posix [p] = p"
| "as_posix (p # ps) = p @ ''/'' @ as_posix ps"

section \<open>Option parsing\<close>

definition AUTO_EXCLUDES :: "string set" where
  "AUTO_EXCLUDES = {''.git'', ''.idea'', ''.venv'', ''venv''}"

definition DEFAULT_EXTS :: "string set" where
  "DEFAULT_EXTS = {''.txt'', ''.sh'', ''.py'', ''.sql''}"

definition parse_csv_set :: "string \<Rightarrow> string set" where
  "parse_csv_set s =
     (if s = [] then {}
      else set (map strip (filter (\<lambda>part. strip part \<noteq> []) (split_comma s))))"

text \<open>
  \<open>normalized_exts\<close>: the conditional expression binds weaker than the method call, so an
  entry that already starts with a dot is kept as typed and only a dot-less entry is
  dotted and lowercased.
\<close>

definition normalized_exts :: "string option \<Rightarrow> string set" where
  "normalized_exts csv_exts =
     (case csv_exts of
        None \<Rightarrow> DEFAULT_EXTS
      | Some csv \<Rightarrow>
          if csv = [] then DEFAULT_EXTS
          else (let exts = set (map strip (filter (\<lambda>e. strip e \<noteq> []) (split_comma csv)))
                in (\<lambda>e. if startswith e ''.'' then e else lower (''.'' @ e)) ` exts))"

text \<open>The default of the \<open>--exts\<close> option, and line 165 of \<open>main\<close>.\<close>

definition exts_default_arg :: string where
  "exts_default_arg = ''.txt,.sh,.py,.sql''"

definition main_allowed_exts :: "string \<Rightarrow> string set" where
  "main_allowed_exts args_exts = lower ` normalized_exts (Some args_exts)"

section \<open>The file system as the traversal sees it\<close>

text \<open>
  Listing a directory (the \<open>try\<close> block of lines 82 to 86: \<open>iterdir\<close>, and \<open>is_symlink\<close>
  and \<open>is_file\<close> on what it yields) either gives its entries or raises. \<open>_walk\<close> catches
  \<open>PermissionError\<close> and \<open>FileNotFoundError\<close>; any other \<open>OSError\<close> leaves the function.
  A directory that is there when its parent is listed and gone when it is visited is a
  directory whose listing raises \<open>FileNotFoundError\<close>.
  An entry is a regular file (\<open>is_file()\<close>), a directory (\<open>is_dir()\<close>), something that is
  neither (a fifo, a socket, a device), or a symbolic link with the entry it resolves to
  (\<open>None\<close> when it dangles); \<open>is_file\<close> and \<open>is_dir\<close> follow links, and give the same
  answer each time they are asked during one run.
\<close>

datatype exn = PermissionError | FileNotFoundError | OSError

datatype entry =
    RegularFile string
  | SpecialFile string
  | Directory string listing
  | Symlink string "entry option"
and listing =
    Entries "entry list"
  | Raises exn

fun name :: "entry \<Rightarrow> string" where
  "name (RegularFile n) = n"
| "name (SpecialFile n) = n"
| "name (Directory n l) = n"
| "name (Symlink n t) = n"

fun is_symlink :: "entry \<Rightarrow> bool" where
  "is_symlink (Symlink n t) = True"
| "is_symlink e = False"

fun is_file :: "entry \<Rightarrow> bool" where
  "is_file (RegularFile n) = True"
| "is_file (SpecialFile n) = False"
| "is_file (Directory n l) = False"
| "is_file (Symlink n None) = False"
| "is_file (Symlink n (Some t)) = is_file t"

fun is_dir :: "entry \<Rightarrow> bool" where
  "is_dir (RegularFile n) = False"
| "is_dir (SpecialFile n) = False"
| "is_dir (Directory n l) = True"
| "is_dir (Symlink n None) = False"
| "is_dir (Symlink n (Some t)) = is_dir t"

text \<open>What \<open>iterdir\<close> gives on an entry; on something that is no directory it raises.\<close>

fun iterdir :: "entry \<Rightarrow> listing" where
  "iterdir (RegularFile n) = Raises OSError"
| "iterdir (SpecialFile n) = Raises OSError"
| "iterdir (Directory n l) = l"
| "iterdir (Symlink n None) = Raises FileNotFoundError"
| "iterdir (Symlink n (Some t)) = iterdir t"

section \<open>Ignore globs\<close>

text \<open>
  \<open>fnmatch.fnmatch\<close> belongs to the Python library; the traversal takes it as a
  parameter (name first, pattern second), and everything proved below holds for every
  matcher. \<open>wildcard_match\<close> is the fragment of it with \<open>*\<close>, \<open>?\<close> and literal
  characters on a case-sensitive host, used where a concrete matcher is evaluated.
\<close>

type_synonym matcher = "string \<Rightarrow> string \<Rightarrow> bool"

fun wildcard :: "string \<Rightarrow> string \<Rightarrow> bool" where
  "wildcard [] [] = True"
| "wildcard [] (c # cs) = False"
| "wildcard (p # ps) cs =
     (if p = CHR ''*'' then
        (wildcard ps cs \<or> (case cs of [] \<Rightarrow> False | d # ds \<Rightarrow> wildcard (p # ps) ds))
      else
        (case cs of
           [] \<Rightarrow> False
         | d # ds \<Rightarrow> (p = CHR ''?'' \<or> p = d) \<and> wildcard ps ds))"

definition wildcard_match :: matcher where
  "wildcard_match nm pat = wildcard pat nm"

text \<open>
  \<open>matches_any_glob(path, patterns, root)\<close>; \<open>path\<close> is given by its parts relative to
  \<open>root\<close>.
\<close>

definition matches_any_glob :: "matcher \<Rightarrow> path \<Rightarrow> string set \<Rightarrow> bool" where
  "matches_any_glob fnmatch rel patterns =
     (if patterns = {} then False
      else (let nm = path_name rel; rel_posix = as_posix rel
            in \<exists>pat\<in>patterns. fnmatch nm pat \<or> fnmatch rel_posix pat))"

section \<open>Traversal\<close>

text \<open>The variables \<open>_walk\<close> closes over, and the two lists it appends to.\<close>

record filters =
  excludes :: "string set"
  ignore_globs :: "string set"
  allowed_exts :: "string set"
  include_names :: "string set"

record env = filters +
  skip_names :: "string set"

record out =
  lines :: "string list"
  collected :: "path list"

definition sort_key_of :: "entry \<Rightarrow> bool \<times> string" where
  "sort_key_of p = (is_file p, lower (name p))"

text \<open>Lines 83 to 86: the entries that are no symbolic links, sorted (stably) by the key.\<close>

definition sorted_entries :: "entry list \<Rightarrow> entry list" where
  "sorted_entries es = sort_key sort_key_of (filter (\<lambda>p. \<not> is_symlink p) es)"

text \<open>Lines 94 to 108: the filter loop, in the directory with parts \<open>dir_path\<close>.\<close>

fun visible :: "env \<Rightarrow> matcher \<Rightarrow> path \<Rightarrow> entry list \<Rightarrow> entry list" where
  "visible E fnmatch dir_path [] = []"
| "visible E fnmatch dir_path (p # entries) =
     (if is_dir p then
        (if name p \<in> excludes E then visible E fnmatch dir_path entries
         else if matches_any_glob fnmatch (dir_path @ [name p]) (ignore_globs E)
           then visible E fnmatch dir_path entries
         else p # visible E fnmatch dir_path entries)
      else
        (if name p \<in> skip_names E then visible E fnmatch dir_path entries
         else if matches_any_glob fnmatch (dir_path @ [name p]) (ignore_globs E)
           then visible E fnmatch dir_path entries
         else p # visible E fnmatch dir_path entries))"

text \<open>The box-drawing prefixes of the source (corner, tee and bar), as UTF-8 bytes.\<close>

definition branch_last :: string where
  "branch_last = [CHR 0xE2, CHR 0x94, CHR 0x94, CHR 0xE2, CHR 0x94, CHR 0x80,
                  CHR 0xE2, CHR 0x94, CHR 0x80, CHR 0x20]"

definition branch_mid :: string where
  "branch_mid = [CHR 0xE2, CHR 0x94, CHR 0x9C, CHR 0xE2, CHR 0x94, CHR 0x80,
                 CHR 0xE2, CHR 0x94, CHR 0x80, CHR 0x20]"

definition cont_mid :: string where
  "cont_mid = [CHR 0xE2, CHR 0x94, CHR 0x82, CHR 0x20, CHR 0x20, CHR 0x20]"

definition cont_last :: string where
  "cont_last = ''    ''"

definition denied_line :: "string \<Rightarrow> string" where
  "denied_line prefix = prefix @ branch_last @ ''[permission denied]''"

text \<open>Line 121: the inclusion rule.\<close>

definition bundled :: "env \<Rightarrow> entry \<Rightarrow> bool" where
  "bundled E p = (lower (suffix (name p)) \<in> allowed_exts E \<or> name p \<in> include_names E)"

definition entry_line :: "string \<Rightarrow> bool \<Rightarrow> entry \<Rightarrow> string" where
  "entry_line prefix is_last p =
     (let branch = (if is_last then branch_last else branch_mid);
          display = name p @ (if is_dir p then ''/'' else [])
      in prefix @ branch @ display)"

text \<open>Sizes for the termination of the traversal.\<close>

fun esize :: "entry \<Rightarrow> nat" and lsize :: "listing \<Rightarrow> nat" where
  "esize (RegularFile n) = 1"
| "esize (SpecialFile n) = 1"
| "esize (Directory n l) = Suc (Suc (lsize l))"
| "esize (Symlink n None) = 1"
| "esize (Symlink n (Some t)) = Suc (esize t)"
| "lsize (Entries es) = Suc (sum_list (map esize es))"
| "lsize (Raises e) = 0"

text \<open>
  \<open>_walk(dir_path, prefix)\<close> and its \<open>for idx, p in enumerate(visible)\<close> loop from
  position \<open>idx\<close> on. The directory is given by its parts relative to the root and by
  what listing it yields. \<open>Inl\<close> is an exception that leaves \<open>_walk\<close>.
\<close>

function walk :: "env \<Rightarrow> matcher \<Rightarrow> path \<Rightarrow> listing \<Rightarrow> string \<Rightarrow> out \<Rightarrow> exn + out"
  and walk_loop ::
    "env \<Rightarrow> matcher \<Rightarrow> path \<Rightarrow> string \<Rightarrow> nat \<Rightarrow> nat \<Rightarrow> entry list \<Rightarrow> out \<Rightarrow> exn + out"
where
  "walk E fnmatch dir_path (Raises e) prefix st =
     (case e of
        PermissionError \<Rightarrow> Inr (st\<lparr>lines := lines st @ [denied_line prefix]\<rparr>)
      | FileNotFoundError \<Rightarrow> Inr st
      | OSError \<Rightarrow> Inl OSError)"
| "walk E fnmatch dir_path (Entries es) prefix st =
     walk_loop E fnmatch dir_path prefix
       (length (visible E fnmatch dir_path (sorted_entries es))) 0
       (visible E fnmatch dir_path (sorted_entries es)) st"
| "walk_loop E fnmatch dir_path prefix tot idx [] st = Inr st"
| "walk_loop E fnmatch dir_path prefix tot idx (p # ps) st =
     (let is_last = (int idx = int tot - 1);
          st1 = st\<lparr>lines := lines st @ [entry_line prefix is_last p]\<rparr>
      in if is_dir p then
           (case walk E fnmatch (dir_path @ [name p]) (iterdir p)
                   (prefix @ (if is_last then cont_last else cont_mid)) st1 of
              Inl e \<Rightarrow> Inl e
            | Inr st2 \<Rightarrow> walk_loop E fnmatch dir_path prefix tot (Suc idx) ps st2)
         else if bundled E p then
           walk_loop E fnmatch dir_path prefix tot (Suc idx) ps
             (st1\<lparr>collected := collected st1 @ [dir_path @ [name p]]\<rparr>)
         else walk_loop E fnmatch dir_path prefix tot (Suc idx) ps st1)"
  by pat_completeness auto
termination
proof -
  have pos: "0 < esize p" for p
    by (induction p rule: esize_lsize.induct(1)[where Q = "\<lambda>_. True"]) simp_all
  have sub: "is_dir p \<Longrightarrow> lsize (iterdir p) < esize p" for p
    by (induction p rule: is_dir.induct) simp_all
  have ins: "sum_list (map esize (insort_key k x xs)) = esize x + sum_list (map esize xs)"
    for k :: "entry \<Rightarrow> bool \<times> string" and x xs
    by (induction xs) simp_all
  have srt: "sum_list (map esize (sort_key k xs)) = sum_list (map esize xs)"
    for k :: "entry \<Rightarrow> bool \<times> string" and xs
    by (induction xs) (simp_all add: ins)
  have flt: "sum_list (map esize (filter P xs)) \<le> sum_list (map esize xs)" for P xs
    by (induction xs) simp_all
  have vis: "sum_list (map esize (visible E f d xs)) \<le> sum_list (map esize xs)" for E f d xs
    by (induction xs) simp_all
  have pipe: "sum_list (map esize (visible E f d (sorted_entries es)))
                \<le> sum_list (map esize es)" for E f d es
    unfolding sorted_entries_def
    using vis [of E f d "sort_key sort_key_of (filter (\<lambda>p. \<not> is_symlink p) es)"]
      flt [of "\<lambda>p. \<not> is_symlink p" es]
    by (simp add: srt)
  show ?thesis
  proof (relation "measure (\<lambda>x. case x of
            Inl (E, f, d, l, pre, st) \<Rightarrow> lsize l
          | Inr (E, f, d, pre, tot, idx, ps, st) \<Rightarrow> sum_list (map esize ps))", goal_cases)
    case 1
    show ?case by simp
  next
    case (2 E f d es prefix st)
    show ?case using pipe [of E f d es] by simp
  next
    case (3 E f d prefix tot idx p ps st)
    then show ?case using sub [of p] by simp
  next
    case 4
    then show ?case using pos by simp
  next
    case 5
    then show ?case using pos by simp
  next
    case 6
    then show ?case using pos by simp
  qed
qed

text \<open>
  \<open>build_tree_and_collect_files\<close>: the root is given by the name of its resolved path
  and by the listing it yields, the four filter sets by one record. \<open>closure_env\<close> is
  what \<open>_walk\<close> closes over, with the \<open>skip_names\<close> of line 79. The result is the text
  written to \<open>tree_output\<close> and the list returned; \<open>walk_root\<close> is the state of the two
  lists when \<open>_walk(root)\<close> has returned.
\<close>

fun join_lines :: "string list \<Rightarrow> string" where
  "join_lines [] = []"
| "join_lines [l] = l"
| "join_lines (l # ls) = l @ [CHR 0x0A] @ join_lines ls"

definition closure_env :: "filters \<Rightarrow> path \<Rightarrow> path \<Rightarrow> env" where
  "closure_env F tree_output bundle_output =
     \<lparr>excludes = excludes F, ignore_globs = ignore_globs F,
      allowed_exts = allowed_exts F, include_names = include_names F,
      skip_names = {path_name tree_output, path_name bundle_output}\<rparr>"

definition walk_root :: "matcher \<Rightarrow> string \<Rightarrow> listing \<Rightarrow> filters \<Rightarrow> path \<Rightarrow> path \<Rightarrow> exn + out" where
  "walk_root fnmatch root_name root F tree_output bundle_output =
     walk (closure_env F tree_output bundle_output) fnmatch [] root []
       \<lparr>lines = [root_name @ ''/''], collected = []\<rparr>"

definition build_tree_and_collect_files ::
  "matcher \<Rightarrow> string \<Rightarrow> listing \<Rightarrow> filters \<Rightarrow> path \<Rightarrow> path \<Rightarrow> exn + (string \<times> path list)" where
  "build_tree_and_collect_files fnmatch root_name root F tree_output bundle_output =
     (case walk_root fnmatch root_name root F tree_output bundle_output of
        Inl e \<Rightarrow> Inl e
      | Inr st \<Rightarrow> Inr (join_lines (lines st), collected st))"

section \<open>The bundle\<close>

text \<open>
  \<open>write_bundle\<close>: \<open>read_text\<close> gives, for a root-relative path, the decoded text of the
  file or the message of the exception raised. The result is the text written to
  \<open>bundle_output\<close>.
\<close>

definition rule_line :: string where
  "rule_line = replicate 80 (CHR ''='') @ [CHR 0x0A]"

definition file_block :: "(path \<Rightarrow> string + string) \<Rightarrow> path \<Rightarrow> string" where
  "file_block read_text rel =
     [CHR 0x0A, CHR 0x0A] @ rule_line @ ''FILE: '' @ as_posix rel @ [CHR 0x0A] @ rule_line @
     (case read_text rel of
        Inl e \<Rightarrow> ''[ERROR READING FILE: '' @ e @ '']'' @ [CHR 0x0A]
      | Inr text \<Rightarrow> text)"

fun write_bundle :: "(path \<Rightarrow> string + string) \<Rightarrow> path list \<Rightarrow> string \<Rightarrow> string" where
  "write_bundle read_text [] written = written"
| "write_bundle read_text (rel # files) written =
     write_bundle read_text files (written @ file_block read_text rel)"

section \<open>Notions used in the statements\<close>

text \<open>The two lists before anything is appended, and one state appended to another.\<close>

definition empty_out :: out where
  "empty_out = \<lparr>lines = [], collected = []\<rparr>"

definition append_out :: "out \<Rightarrow> out \<Rightarrow> out" where
  "append_out st a = \<lparr>lines = lines st @ lines a, collected = collected st @ collected a\<rparr>"

text \<open>An entry is shown in the directory \<open>dir_path\<close> when the filter loop keeps it.\<close>

definition shown :: "env \<Rightarrow> matcher \<Rightarrow> path \<Rightarrow> entry \<Rightarrow> bool" where
  "shown E fnmatch dir_path p = (visible E fnmatch dir_path [p] = [p])"

text \<open>
  \<open>visited E fnmatch d0 l0 d l\<close>: a call of \<open>_walk\<close> on the directory \<open>d0\<close> that lists
  as \<open>l0\<close> leads to a call of \<open>_walk\<close> on the directory \<open>d\<close> that lists as \<open>l\<close>.
\<close>

inductive visited :: "env \<Rightarrow> matcher \<Rightarrow> path \<Rightarrow> listing \<Rightarrow> path \<Rightarrow> listing \<Rightarrow> bool"
  for E :: env and fnmatch :: matcher and d0 :: path and l0 :: listing
where
  start: "visited E fnmatch d0 l0 d0 l0"
| descend:
    "visited E fnmatch d0 l0 d (Entries es) \<Longrightarrow>
     p \<in> set (visible E fnmatch d (sorted_entries es)) \<Longrightarrow> is_dir p \<Longrightarrow>
     visited E fnmatch d0 l0 (d @ [name p]) (iterdir p)"

text \<open>
  \<open>erase P l\<close>: the file system \<open>l\<close> without the entries that satisfy \<open>P\<close>, at every
  depth, and without anything beneath them.
\<close>

fun erase_entry :: "(entry \<Rightarrow> bool) \<Rightarrow> entry \<Rightarrow> entry"
  and erase :: "(entry \<Rightarrow> bool) \<Rightarrow> listing \<Rightarrow> listing"
  and erase_list :: "(entry \<Rightarrow> bool) \<Rightarrow> entry list \<Rightarrow> entry list"
where
  "erase_entry P (Directory n l) = Directory n (erase P l)"
| "erase_entry P (RegularFile n) = RegularFile n"
| "erase_entry P (SpecialFile n) = SpecialFile n"
| "erase_entry P (Symlink n t) = Symlink n t"
| "erase P (Entries es) = Entries (erase_list P es)"
| "erase P (Raises e) = Raises e"
| "erase_list P [] = []"
| "erase_list P (e # es) =
     (if P e then erase_list P es else erase_entry P e # erase_list P es)"

text \<open>No directory of the tree raises, when listed, an exception that \<open>_walk\<close> lets through.\<close>

fun no_uncaught_entry :: "entry \<Rightarrow> bool" and no_uncaught :: "listing \<Rightarrow> bool" where
  "no_uncaught_entry (Directory n l) = no_uncaught l"
| "no_uncaught_entry (RegularFile n) = True"
| "no_uncaught_entry (SpecialFile n) = True"
| "no_uncaught_entry (Symlink n t) = True"
| "no_uncaught (Entries es) = list_all no_uncaught_entry es"
| "no_uncaught (Raises e) = (e \<noteq> OSError)"

text \<open>Reading from a table of file contents; a path that is not in it cannot be read.\<close>

definition read_from :: "(path \<times> string) list \<Rightarrow> path \<Rightarrow> string + string" where
  "read_from files rel =
     (case map_of files rel of
        None \<Rightarrow> Inl ''[Errno 2] No such file or directory''
      | Some text \<Rightarrow> Inr text)"

text \<open>
  \<open>selected E fnmatch d0 l0 x\<close>: \<open>x\<close> is the path of an entry that is shown in a directory
  visited from \<open>d0\<close>, is no directory, and satisfies the inclusion rule.
\<close>

inductive selected :: "env \<Rightarrow> matcher \<Rightarrow> path \<Rightarrow> listing \<Rightarrow> path \<Rightarrow> bool"
  for E :: env and fnmatch :: matcher and d0 :: path and l0 :: listing
where
  "visited E fnmatch d0 l0 d (Entries es) \<Longrightarrow>
   p \<in> set (visible E fnmatch d (sorted_entries es)) \<Longrightarrow> \<not> is_dir p \<Longrightarrow> bundled E p \<Longrightarrow>
   selected E fnmatch d0 l0 (d @ [name p])"

text \<open>Filters for the examples.\<close>

definition py_filters :: filters where
  "py_filters = \<lparr>excludes = AUTO_EXCLUDES, ignore_globs = {''*.map''},
                  allowed_exts = {''.py''}, include_names = {''Dockerfile''}\<rparr>"

definition md_filters :: filters where
  "md_filters = \<lparr>excludes = AUTO_EXCLUDES, ignore_globs = {},
                  allowed_exts = {''.md''}, include_names = {''Dockerfile''}\<rparr>"

lemmas eval_defs =
  walk_root_def closure_env_def build_tree_and_collect_files_def py_filters_def AUTO_EXCLUDES_def
  sorted_entries_def sort_key_of_def lower_def lower_char_def path_name_def
  matches_any_glob_def wildcard_match_def entry_line_def denied_line_def bundled_def
  suffix_def rfind_def

section \<open>Extensions\<close>

lemma lower_char_idem: "lower_char (lower_char c) = lower_char c"
  by (simp add: lower_char_def)

lemma lower_char_not_upper: "\<not> is_upper (lower_char c)"
  by (simp add: lower_char_def is_upper_def)

lemma lower_idem: "lower (lower s) = lower s"
  by (simp add: lower_def lower_char_idem)

lemma lower_no_upper: "c \<in> set (lower s) \<Longrightarrow> \<not> is_upper c"
  by (auto simp: lower_def lower_char_not_upper)

lemma lower_dot: "startswith s ''.'' \<Longrightarrow> startswith (lower s) ''.''"
  by (cases s) (auto simp: startswith_def lower_def lower_char_def)

lemma normalized_exts_dot: "e \<in> normalized_exts a \<Longrightarrow> startswith e ''.''"
  by (auto simp: normalized_exts_def DEFAULT_EXTS_def startswith_def lower_def lower_char_def
      split: option.splits if_splits)

text \<open>
  C5. Whatever string the extensions option holds, every member of the set that \<open>main\<close>
  passes on starts with a dot and is lowercase (lowercasing does not change it, and it
  has no uppercase letter). The default of the option, a missing value and an empty
  value all give the set of \<open>.txt\<close>, \<open>.sh\<close>, \<open>.py\<close> and \<open>.sql\<close>.
\<close>

theorem allowed_exts_lowercase_dotted:
  "(e \<in> main_allowed_exts args_exts \<longrightarrow>
      startswith e ''.'' \<and> lower e = e \<and> (\<forall>c\<in>set e. \<not> is_upper c))
   \<and> main_allowed_exts exts_default_arg = {''.txt'', ''.sh'', ''.py'', ''.sql''}
   \<and> normalized_exts None = {''.txt'', ''.sh'', ''.py'', ''.sql''}
   \<and> normalized_exts (Some []) = {''.txt'', ''.sh'', ''.py'', ''.sql''}"
proof (intro conjI impI)
  assume "e \<in> main_allowed_exts args_exts"
  then obtain x where x: "x \<in> normalized_exts (Some args_exts)" and e: "e = lower x"
    by (auto simp: main_allowed_exts_def)
  show "startswith e ''.''" using normalized_exts_dot [OF x] e by (simp add: lower_dot)
  show "lower e = e" using e by (simp add: lower_idem)
  show "\<forall>c\<in>set e. \<not> is_upper c" using e lower_no_upper by blast
next
  show "main_allowed_exts exts_default_arg = {''.txt'', ''.sh'', ''.py'', ''.sql''}"
    by (simp add: main_allowed_exts_def exts_default_arg_def normalized_exts_def strip_def
        is_space_def startswith_def lower_def lower_char_def)
next
  show "normalized_exts None = {''.txt'', ''.sh'', ''.py'', ''.sql''}"
    by (simp add: normalized_exts_def DEFAULT_EXTS_def)
next
  show "normalized_exts (Some []) = {''.txt'', ''.sh'', ''.py'', ''.sql''}"
    by (simp add: normalized_exts_def DEFAULT_EXTS_def)
qed

text \<open>The option \<open>TXT, .Md\<close> resolves to \<open>.txt\<close> and \<open>.md\<close>.\<close>

theorem allowed_exts_lowercase_dotted_witness:
  "''.md'' \<in> main_allowed_exts ''TXT, .Md'' \<and> ''.txt'' \<in> main_allowed_exts ''TXT, .Md''
   \<and> startswith ''.md'' ''.'' \<and> lower ''.md'' = ''.md'' \<and> \<not> is_upper (CHR ''m'')"
proof -
  have m: "main_allowed_exts ''TXT, .Md'' = {''.txt'', ''.md''}"
    by (simp add: main_allowed_exts_def normalized_exts_def strip_def
        is_space_def startswith_def lower_def lower_char_def)
  show ?thesis
    using allowed_exts_lowercase_dotted [of "''.md''" "''TXT, .Md''"] m by simp
qed

section \<open>The bundle writer\<close>

lemma write_bundle_concat:
  "write_bundle read_text files written = written @ concat (map (file_block read_text) files)"
  by (induction files arbitrary: written) simp_all

text \<open>
  C4 as stated fails: the two newlines are written in front of every block, the first
  one too, so the bundle of a single file does not start with the rule line.
\<close>

theorem bundle_leading_blank_counterexample:
  "write_bundle (read_from [([''a.txt''], ''x'')]) [[''a.txt'']] []
     = [CHR 0x0A, CHR 0x0A] @ replicate 80 (CHR ''='') @ [CHR 0x0A] @ ''FILE: a.txt'' @ [CHR 0x0A]
         @ replicate 80 (CHR ''='') @ [CHR 0x0A] @ ''x''
   \<and> write_bundle (read_from [([''a.txt''], ''x'')]) [[''a.txt'']] []
     \<noteq> replicate 80 (CHR ''='') @ [CHR 0x0A] @ ''FILE: a.txt'' @ [CHR 0x0A]
         @ replicate 80 (CHR ''='') @ [CHR 0x0A] @ ''x''"
  by (simp add: file_block_def rule_line_def read_from_def)

text \<open>
  C4 (amended). The bundle is the concatenation, in the order of the selected list, of
  one block per file: two newlines, a line of 80 equals signs, the line \<open>FILE: \<close> with
  the parts of the relative path joined by forward slashes, a second line of 80 equals
  signs, then the text of the file, or, when the file cannot be read, a line with the
  error. So every block, the first one too, is preceded by the pair of newlines.
\<close>

theorem bundle_blocks:
  "write_bundle read_text files []
     = concat (map (\<lambda>rel.
         [CHR 0x0A, CHR 0x0A] @ replicate 80 (CHR ''='') @ [CHR 0x0A]
         @ ''FILE: '' @ as_posix rel @ [CHR 0x0A]
         @ replicate 80 (CHR ''='') @ [CHR 0x0A]
         @ (case read_text rel of
              Inr text \<Rightarrow> text
            | Inl e \<Rightarrow> ''[ERROR READING FILE: '' @ e @ '']'' @ [CHR 0x0A])) files)
   \<and> length (replicate 80 (CHR ''='')) = 80
   \<and> as_posix (part # part' # parts) = part @ ''/'' @ as_posix (part' # parts)"
proof -
  have "file_block read_text = (\<lambda>rel.
         [CHR 0x0A, CHR 0x0A] @ replicate 80 (CHR ''='') @ [CHR 0x0A]
         @ ''FILE: '' @ as_posix rel @ [CHR 0x0A]
         @ replicate 80 (CHR ''='') @ [CHR 0x0A]
         @ (case read_text rel of
              Inr text \<Rightarrow> text
            | Inl e \<Rightarrow> ''[ERROR READING FILE: '' @ e @ '']'' @ [CHR 0x0A]))"
    by (rule ext) (simp add: file_block_def rule_line_def split: sum.splits)
  then show ?thesis
    using write_bundle_concat [of read_text files "[]"] by simp
qed

text \<open>Two files, the second of them unreadable.\<close>

theorem bundle_blocks_witness:
  "write_bundle (read_from [([''src'', ''main.py''], ''pass'')])
       [[''src'', ''main.py''], [''b.py'']] []
     = [CHR 0x0A, CHR 0x0A] @ replicate 80 (CHR ''='') @ [CHR 0x0A]
       @ ''FILE: src/main.py'' @ [CHR 0x0A] @ replicate 80 (CHR ''='') @ [CHR 0x0A] @ ''pass''
       @ [CHR 0x0A, CHR 0x0A] @ replicate 80 (CHR ''='') @ [CHR 0x0A]
       @ ''FILE: b.py'' @ [CHR 0x0A] @ replicate 80 (CHR ''='') @ [CHR 0x0A]
       @ ''[ERROR READING FILE: [Errno 2] No such file or directory]'' @ [CHR 0x0A]"
  using bundle_blocks [of "read_from [([''src'', ''main.py''], ''pass'')]"
      "[[''src'', ''main.py''], [''b.py'']]"]
  by (simp add: read_from_def)

section \<open>Directories that cannot be listed\<close>

lemma visible_filter: "visible E f d xs = filter (shown E f d) xs"
  by (induction xs) (simp_all add: shown_def)

lemma visible_subset:
  "set (visible E f d (sorted_entries es)) \<subseteq> {p \<in> set es. \<not> is_symlink p}"
  by (auto simp: visible_filter sorted_entries_def)

lemma nonlink_dir: "\<not> is_symlink p \<Longrightarrow> is_dir p \<Longrightarrow> \<exists>n. p = Directory n (iterdir p)"
  by (cases p) simp_all

lemma completes_aux:
  "(no_uncaught l \<longrightarrow> (\<exists>st'. walk E f d l pre st = Inr st'))"
  "((\<forall>p\<in>set ps. \<not> is_symlink p \<and> no_uncaught_entry p) \<longrightarrow>
      (\<exists>st'. walk_loop E f d pre tot idx ps st = Inr st'))"
proof (induction E f d l pre st and E f d pre tot idx ps st rule: walk_walk_loop.induct)
  case (1 E f d e pre st)
  then show ?case by (cases e) simp_all
next
  case (2 E f d es pre st)
  have "\<forall>p\<in>set (visible E f d (sorted_entries es)). p \<in> set es \<and> \<not> is_symlink p"
    using visible_subset [of E f d es] by auto
  then show ?case using 2 by (auto simp: list_all_iff)
next
  case (3 E f d pre tot idx st)
  then show ?case by simp
next
  case (4 E f d pre tot idx p ps st)
  show ?case
  proof (intro impI)
    assume a: "\<forall>q\<in>set (p # ps). \<not> is_symlink q \<and> no_uncaught_entry q"
    let ?il = "int idx = int tot - 1"
    let ?st1 = "st\<lparr>lines := lines st @ [entry_line pre ?il p]\<rparr>"
    show "\<exists>st'. walk_loop E f d pre tot idx (p # ps) st = Inr st'"
    proof (cases "is_dir p")
      case True
      with a obtain n where p: "p = Directory n (iterdir p)"
        using nonlink_dir [of p] by auto
      have "no_uncaught_entry p" using a by simp
      then have "no_uncaught (iterdir p)" by (subst (asm) p) simp
      with 4(1) [OF refl refl True] obtain st2 where
        w: "walk E f (d @ [name p]) (iterdir p)
              (pre @ (if ?il then cont_last else cont_mid)) ?st1 = Inr st2"
        by blast
      from 4(2) [OF refl refl True w] a obtain st' where
        "walk_loop E f d pre tot (Suc idx) ps st2 = Inr st'" by auto
      then show ?thesis using True w by (simp add: Let_def)
    next
      case False
      show ?thesis
      proof (cases "bundled E p")
        case True
        from 4(3) [OF refl refl False True] a show ?thesis
          using False True by (simp add: Let_def)
      next
        case nb: False
        from 4(4) [OF refl refl False nb] a show ?thesis
          using False nb by (simp add: Let_def)
      qed
    qed
  qed
qed

text \<open>
  C7. A directory whose listing raises \<open>PermissionError\<close> adds exactly one line, the
  sentinel, and nothing to the bundle list. In the loop over its parent, such a
  directory gives its own line, the sentinel one level deeper, and then the loop goes
  on with the next entry. A run over a tree in which no listing raises an exception
  other than the two that are caught returns.
\<close>

theorem permission_denied_sentinel:
  "walk E fnmatch dir_path (Raises PermissionError) prefix st
     = Inr (st\<lparr>lines := lines st @ [prefix @ branch_last @ ''[permission denied]'']\<rparr>)
   \<and> (is_dir p \<and> iterdir p = Raises PermissionError \<longrightarrow>
        walk_loop E fnmatch dir_path prefix tot idx (p # ps) st
          = walk_loop E fnmatch dir_path prefix tot (Suc idx) ps
              (st\<lparr>lines := lines st @
                 [entry_line prefix (int idx = int tot - 1) p,
                  (prefix @ (if int idx = int tot - 1 then cont_last else cont_mid))
                    @ branch_last @ ''[permission denied]'']\<rparr>))
   \<and> (no_uncaught root \<longrightarrow>
        (\<exists>st'. walk_root fnmatch root_name root F tree_output bundle_output = Inr st'))"
proof (intro conjI impI)
  show "walk E fnmatch dir_path (Raises PermissionError) prefix st
     = Inr (st\<lparr>lines := lines st @ [prefix @ branch_last @ ''[permission denied]'']\<rparr>)"
    by (simp add: denied_line_def)
next
  assume "is_dir p \<and> iterdir p = Raises PermissionError"
  then show "walk_loop E fnmatch dir_path prefix tot idx (p # ps) st
          = walk_loop E fnmatch dir_path prefix tot (Suc idx) ps
              (st\<lparr>lines := lines st @
                 [entry_line prefix (int idx = int tot - 1) p,
                  (prefix @ (if int idx = int tot - 1 then cont_last else cont_mid))
                    @ branch_last @ ''[permission denied]'']\<rparr>)"
    by (simp add: Let_def denied_line_def)
next
  assume "no_uncaught root"
  then show "\<exists>st'. walk_root fnmatch root_name root F tree_output bundle_output = Inr st'"
    unfolding walk_root_def using completes_aux(1) by blast
qed

text \<open>
  A root with a file and a directory that denies access: the sentinel is the only line
  under the directory, and the file after it is still listed and bundled.
\<close>

theorem permission_denied_sentinel_witness:
  "is_dir (Directory ''locked'' (Raises PermissionError))
   \<and> iterdir (Directory ''locked'' (Raises PermissionError)) = Raises PermissionError
   \<and> no_uncaught (Entries [RegularFile ''a.py'', Directory ''locked'' (Raises PermissionError)])
   \<and> walk_root wildcard_match ''root''
        (Entries [RegularFile ''a.py'', Directory ''locked'' (Raises PermissionError)])
        py_filters [''tree.txt''] [''all_texts.txt'']
      = Inr \<lparr>lines = [''root/'', branch_mid @ ''locked/'',
                       cont_mid @ branch_last @ ''[permission denied]'',
                       branch_last @ ''a.py''],
              collected = [[''a.py'']]\<rparr>"
proof -
  have "\<exists>st'. walk_root wildcard_match ''root''
        (Entries [RegularFile ''a.py'', Directory ''locked'' (Raises PermissionError)])
        py_filters [''tree.txt''] [''all_texts.txt''] = Inr st'"
    using permission_denied_sentinel
      [where p = "Directory ''locked'' (Raises PermissionError)"
         and root = "Entries [RegularFile ''a.py'',
                              Directory ''locked'' (Raises PermissionError)]"
         and fnmatch = wildcard_match and root_name = "''root''" and F = py_filters
         and tree_output = "[''tree.txt'']" and bundle_output = "[''all_texts.txt'']"]
    by simp
  then show ?thesis by (simp add: eval_defs)
qed

text \<open>
  C3 as stated fails: the parent loop has written the line of the directory before the
  visit raises, so the directory leaves its name in the tree.
\<close>

theorem vanished_directory_counterexample:
  "walk_root wildcard_match ''root''
        (Entries [Directory ''gone'' (Raises FileNotFoundError)])
        py_filters [''tree.txt''] [''all_texts.txt'']
      = Inr \<lparr>lines = [''root/'', branch_last @ ''gone/''], collected = []\<rparr>
   \<and> walk_root wildcard_match ''root'' (Entries [])
        py_filters [''tree.txt''] [''all_texts.txt'']
      = Inr \<lparr>lines = [''root/''], collected = []\<rparr>"
  by (simp add: eval_defs)

text \<open>
  C3 (amended). The visit of a directory whose listing raises \<open>FileNotFoundError\<close> adds
  no line and no file. In the loop over its parent, such a directory gives its own
  line, written before the visit, and nothing else; the loop goes on with the next
  entry.
\<close>

theorem vanished_directory_only_own_line:
  "walk E fnmatch dir_path (Raises FileNotFoundError) prefix st = Inr st
   \<and> (is_dir p \<and> iterdir p = Raises FileNotFoundError \<longrightarrow>
        walk_loop E fnmatch dir_path prefix tot idx (p # ps) st
          = walk_loop E fnmatch dir_path prefix tot (Suc idx) ps
              (st\<lparr>lines := lines st @ [entry_line prefix (int idx = int tot - 1) p]\<rparr>))"
  by (simp add: Let_def)

text \<open>A directory that is gone when visited, followed by a file.\<close>

theorem vanished_directory_only_own_line_witness:
  "is_dir (Directory ''gone'' (Raises FileNotFoundError))
   \<and> iterdir (Directory ''gone'' (Raises FileNotFoundError)) = Raises FileNotFoundError
   \<and> walk_loop \<lparr>excludes = {}, ignore_globs = {}, allowed_exts = {''.py''},
                  include_names = {}, skip_names = {}\<rparr> wildcard_match [] [] 2 0
        [Directory ''gone'' (Raises FileNotFoundError), RegularFile ''a.py'']
        \<lparr>lines = [''root/''], collected = []\<rparr>
      = Inr \<lparr>lines = [''root/'', branch_mid @ ''gone/'', branch_last @ ''a.py''],
              collected = [[''a.py'']]\<rparr>"
  using vanished_directory_only_own_line
    [where p = "Directory ''gone'' (Raises FileNotFoundError)"
       and E = "\<lparr>excludes = {}, ignore_globs = {}, allowed_exts = {''.py''},
                  include_names = {}, skip_names = {}\<rparr>"
       and fnmatch = wildcard_match and dir_path = "[]" and prefix = "[]"
       and tot = 2 and idx = 0 and ps = "[RegularFile ''a.py'']"
       and st = "\<lparr>lines = [''root/''], collected = []\<rparr>"]
  by (simp add: eval_defs)

section \<open>Entries that are never shown\<close>

lemma erase_entry_name [simp]: "name (erase_entry P p) = name p"
  by (cases p) simp_all

lemma erase_entry_is_symlink [simp]: "is_symlink (erase_entry P p) = is_symlink p"
  by (cases p) simp_all

lemma erase_entry_is_dir [simp]: "is_dir (erase_entry P p) = is_dir p"
  by (cases p) simp_all

lemma erase_entry_is_file [simp]: "is_file (erase_entry P p) = is_file p"
  by (cases p) simp_all

lemma erase_entry_iterdir:
  "iterdir (erase_entry P p) = (if is_symlink p then iterdir p else erase P (iterdir p))"
  by (cases p) simp_all

lemma erase_list_map: "erase_list P es = map (erase_entry P) (filter (\<lambda>e. \<not> P e) es)"
  by (induction es) simp_all

lemma insort_key_map_inv:
  "(\<And>x. k (g x) = k x) \<Longrightarrow> insort_key k (g x) (map g xs) = map g (insort_key k x xs)"
  by (induction xs) simp_all

lemma sort_key_map_inv:
  "(\<And>x. k (g x) = k x) \<Longrightarrow> sort_key k (map g xs) = map g (sort_key k xs)"
  by (induction xs) (simp_all add: insort_key_map_inv)

lemma shown_erase [simp]: "shown E f d (erase_entry P p) = shown E f d p"
  by (simp add: shown_def)

lemma entry_line_erase [simp]: "entry_line pre il (erase_entry P p) = entry_line pre il p"
  by (simp add: entry_line_def)

lemma bundled_erase [simp]: "bundled E (erase_entry P p) = bundled E p"
  by (simp add: bundled_def)

text \<open>
  When no entry that satisfies \<open>P\<close> is ever shown, the entries kept in a directory are
  the same with and without them.
\<close>

lemma visible_erase_level:
  assumes inv: "\<And>p d. P p \<Longrightarrow> is_symlink p \<or> \<not> shown E f d p"
  shows "visible E f d (sorted_entries (erase_list P es))
           = map (erase_entry P) (visible E f d (sorted_entries es))"
proof -
  have k: "sort_key_of (erase_entry P x) = sort_key_of x" for x
    by (simp add: sort_key_of_def)
  have "filter (shown E f d) (filter (\<lambda>p. \<not> is_symlink p) (filter (\<lambda>e. \<not> P e) es))
          = filter (shown E f d) (filter (\<lambda>p. \<not> is_symlink p) es)"
    using inv by (induction es) auto
  then have "filter (shown E f d)
               (sort_key sort_key_of (filter (\<lambda>p. \<not> is_symlink p) (filter (\<lambda>e. \<not> P e) es)))
           = filter (shown E f d) (sort_key sort_key_of (filter (\<lambda>p. \<not> is_symlink p) es))"
    by (simp add: filter_sort)
  then show ?thesis
    by (simp add: visible_filter sorted_entries_def erase_list_map filter_map o_def
        sort_key_map_inv [of sort_key_of, OF k])
qed

lemma walk_erase_aux:
  assumes inv: "\<And>p d. P p \<Longrightarrow> is_symlink p \<or> \<not> shown E f d p"
  shows "walk E f d (erase P l) pre st = walk E f d l pre st"
    and "walk_loop E f d pre tot idx (map (erase_entry P) ps) st
           = walk_loop E f d pre tot idx ps st"
  using inv
proof (induction E f d l pre st and E f d pre tot idx ps st rule: walk_walk_loop.induct)
  case (1 E f d e pre st)
  show ?case by simp
next
  case (2 E f d es pre st)
  have v: "visible E f d (sorted_entries (erase_list P es))
           = map (erase_entry P) (visible E f d (sorted_entries es))"
    using visible_erase_level [of P E f d es] 2(2) by blast
  show ?case using 2(1) [OF 2(2)] by (simp add: v)
next
  case (3 E f d pre tot idx st)
  show ?case by simp
next
  case (4 E f d pre tot idx p ps st)
  let ?il = "int idx = int tot - 1"
  let ?st1 = "st\<lparr>lines := lines st @ [entry_line pre ?il p]\<rparr>"
  let ?pre = "pre @ (if ?il then cont_last else cont_mid)"
  show ?case
  proof (cases "is_dir p")
    case True
    have w: "walk E f (d @ [name p]) (iterdir (erase_entry P p)) ?pre ?st1
              = walk E f (d @ [name p]) (iterdir p) ?pre ?st1"
      using 4(1) [OF refl refl True 4(5)] by (simp add: erase_entry_iterdir)
    show ?thesis
    proof (cases "walk E f (d @ [name p]) (iterdir p) ?pre ?st1")
      case (Inl e)
      then show ?thesis using True w by (simp add: Let_def)
    next
      case (Inr st2)
      from 4(2) [OF refl refl True Inr 4(5)] show ?thesis
        using True w Inr by (simp add: Let_def)
    qed
  next
    case False
    show ?thesis
    proof (cases "bundled E p")
      case True
      from 4(3) [OF refl refl False True 4(5)] show ?thesis
        using False True by (simp add: Let_def)
    next
      case nb: False
      from 4(4) [OF refl refl False nb 4(5)] show ?thesis
        using False nb by (simp add: Let_def)
    qed
  qed
qed

lemma build_erase:
  assumes "\<And>p d. P p \<Longrightarrow>
     is_symlink p \<or> \<not> shown (closure_env F tree_output bundle_output) f d p"
  shows "build_tree_and_collect_files f root_name (erase P root) F tree_output bundle_output
       = build_tree_and_collect_files f root_name root F tree_output bundle_output"
  unfolding build_tree_and_collect_files_def walk_root_def
  using walk_erase_aux(1) [OF assms] by simp

text \<open>
  C2. The run gives the same tree text and the same bundle list as on the file system
  from which every directory with an excluded name, at every depth, has been removed
  together with everything beneath it: nothing beneath such a directory is listed,
  nothing beneath it is bundled, and what it contains is never looked at. (The scan
  root is where the traversal starts; it is not an entry and is not checked.)
\<close>

theorem excluded_directory_subtree_absent:
  "build_tree_and_collect_files fnmatch root_name
       (erase (\<lambda>p. is_dir p \<and> name p \<in> excludes F) root) F tree_output bundle_output
     = build_tree_and_collect_files fnmatch root_name root F tree_output bundle_output"
  by (rule build_erase) (simp add: shown_def closure_env_def)

text \<open>
  An excluded directory with a Python file and a subdirectory whose listing would end
  the run: the run returns, and lists and bundles only what is outside.
\<close>

theorem excluded_directory_subtree_absent_witness:
  "erase (\<lambda>p. is_dir p \<and> name p \<in> excludes py_filters)
       (Entries [Directory ''src'' (Entries [Directory ''venv'' (Entries [RegularFile ''x.py''])]),
                 Directory ''.git'' (Entries [RegularFile ''hook.py'',
                                              Directory ''objects'' (Raises OSError)]),
                 RegularFile ''a.py''])
     = Entries [Directory ''src'' (Entries []), RegularFile ''a.py'']
   \<and> build_tree_and_collect_files wildcard_match ''root''
       (Entries [Directory ''src'' (Entries [Directory ''venv'' (Entries [RegularFile ''x.py''])]),
                 Directory ''.git'' (Entries [RegularFile ''hook.py'',
                                              Directory ''objects'' (Raises OSError)]),
                 RegularFile ''a.py''])
       py_filters [''tree.txt''] [''all_texts.txt'']
     = Inr (''root/'' @ [CHR 0x0A] @ branch_mid @ ''src/'' @ [CHR 0x0A] @ branch_last @ ''a.py'',
            [[''a.py'']])"
  using excluded_directory_subtree_absent
    [where fnmatch = wildcard_match and root_name = "''root''" and F = py_filters
       and tree_output = "[''tree.txt'']" and bundle_output = "[''all_texts.txt'']"
       and root = "Entries [Directory ''src'' (Entries [Directory ''venv'' (Entries [RegularFile ''x.py''])]),
                 Directory ''.git'' (Entries [RegularFile ''hook.py'',
                                              Directory ''objects'' (Raises OSError)]),
                 RegularFile ''a.py'']"]
  by (simp add: eval_defs)

text \<open>
  C8. The run gives the same tree text and the same bundle list as on the file system
  from which every symbolic link, at every depth, has been removed: a link is not
  listed, what it points to is not walked, and it adds no file to the bundle list.
\<close>

theorem symlinks_absent:
  "build_tree_and_collect_files fnmatch root_name (erase is_symlink root) F
       tree_output bundle_output
     = build_tree_and_collect_files fnmatch root_name root F tree_output bundle_output"
  by (rule build_erase) simp

text \<open>A link to a directory with a Python file in it, and a link to a Python file.\<close>

theorem symlinks_absent_witness:
  "erase is_symlink
       (Entries [Symlink ''lib'' (Some (Directory ''target'' (Entries [RegularFile ''x.py'']))),
                 Directory ''src'' (Entries [Symlink ''l.py'' (Some (RegularFile ''x.py''))]),
                 RegularFile ''a.py''])
     = Entries [Directory ''src'' (Entries []), RegularFile ''a.py'']
   \<and> build_tree_and_collect_files wildcard_match ''root''
       (Entries [Symlink ''lib'' (Some (Directory ''target'' (Entries [RegularFile ''x.py'']))),
                 Directory ''src'' (Entries [Symlink ''l.py'' (Some (RegularFile ''x.py''))]),
                 RegularFile ''a.py''])
       py_filters [''tree.txt''] [''all_texts.txt'']
     = Inr (''root/'' @ [CHR 0x0A] @ branch_mid @ ''src/'' @ [CHR 0x0A] @ branch_last @ ''a.py'',
            [[''a.py'']])"
  using symlinks_absent
    [where fnmatch = wildcard_match and root_name = "''root''" and F = py_filters
       and tree_output = "[''tree.txt'']" and bundle_output = "[''all_texts.txt'']"
       and root = "Entries [Symlink ''lib'' (Some (Directory ''target'' (Entries [RegularFile ''x.py'']))),
                 Directory ''src'' (Entries [Symlink ''l.py'' (Some (RegularFile ''x.py''))]),
                 RegularFile ''a.py'']"]
  by (simp add: eval_defs)

text \<open>
  C9. Whatever the directory parts of the two output paths are, the run gives the same
  tree text and the same bundle list as on the file system from which every entry
  that is no directory and is named like the last part of one of the two output paths
  has been removed, at every depth.
\<close>

theorem output_named_files_absent:
  "build_tree_and_collect_files fnmatch root_name
       (erase (\<lambda>p. \<not> is_dir p
                 \<and> name p \<in> {path_name tree_output, path_name bundle_output}) root)
       F tree_output bundle_output
     = build_tree_and_collect_files fnmatch root_name root F tree_output bundle_output"
  by (rule build_erase) (simp add: shown_def closure_env_def)

text \<open>
  The outputs go to \<open>/tmp/notes.py\<close> and \<open>/tmp/all.py\<close>, outside the root; the files of
  these names in the root and in \<open>src\<close> are neither listed nor bundled.
\<close>

theorem output_named_files_absent_witness:
  "erase (\<lambda>p. \<not> is_dir p \<and> name p \<in> {path_name [''/'', ''tmp'', ''notes.py''],
                                         path_name [''/'', ''tmp'', ''all.py'']})
       (Entries [Directory ''src'' (Entries [RegularFile ''notes.py'', RegularFile ''b.py'']),
                 RegularFile ''all.py''])
     = Entries [Directory ''src'' (Entries [RegularFile ''b.py''])]
   \<and> build_tree_and_collect_files wildcard_match ''root''
       (Entries [Directory ''src'' (Entries [RegularFile ''notes.py'', RegularFile ''b.py'']),
                 RegularFile ''all.py''])
       py_filters [''/'', ''tmp'', ''notes.py''] [''/'', ''tmp'', ''all.py'']
     = Inr (''root/'' @ [CHR 0x0A] @ branch_last @ ''src/'' @ [CHR 0x0A]
              @ cont_last @ branch_last @ ''b.py'',
            [[''src'', ''b.py'']])"
  using output_named_files_absent
    [where fnmatch = wildcard_match and root_name = "''root''" and F = py_filters
       and tree_output = "[''/'', ''tmp'', ''notes.py'']"
       and bundle_output = "[''/'', ''tmp'', ''all.py'']"
       and root = "Entries [Directory ''src'' (Entries [RegularFile ''notes.py'', RegularFile ''b.py'']),
                 RegularFile ''all.py'']"]
  by (simp add: eval_defs)

section \<open>What a visit appends\<close>

lemma append_out_empty [simp]: "append_out st empty_out = st" "append_out empty_out st = st"
  by (simp_all add: append_out_def empty_out_def)

lemma append_out_assoc: "append_out (append_out a b) c = append_out a (append_out b c)"
  by (simp add: append_out_def)

lemma append_out_line:
  "st\<lparr>lines := lines st @ [x]\<rparr> = append_out st \<lparr>lines = [x], collected = []\<rparr>"
  by (simp add: append_out_def)

lemma append_out_file:
  "st\<lparr>collected := collected st @ [x]\<rparr> = append_out st \<lparr>lines = [], collected = [x]\<rparr>"
  by (simp add: append_out_def)

lemma append_out_both:
  "st\<lparr>lines := lines st @ [x], collected := collected st @ [y]\<rparr>
     = append_out st \<lparr>lines = [x], collected = [y]\<rparr>"
  by (cases st) (simp add: append_out_def)

lemma map_sum_append_comp:
  "map_sum id (append_out a) (map_sum id (append_out b) r) = map_sum id (append_out (append_out a b)) r"
  by (cases r) (simp_all add: append_out_assoc)

lemma walk_frame_aux:
  fixes st0 :: out
  shows "\<forall>st. walk E f d l pre st = map_sum id (append_out st) (walk E f d l pre empty_out)"
  and "\<forall>st. walk_loop E f d pre tot idx ps st
           = map_sum id (append_out st) (walk_loop E f d pre tot idx ps empty_out)"
proof (induct E f d l pre st0 and E f d pre tot idx ps st0 rule: walk_walk_loop.induct)
  case (1 E f d e pre st0)
  show ?case by (cases e) (simp_all add: append_out_def empty_out_def)
next
  case (2 E f d es pre st0)
  show ?case
  proof
    fix st
    show "walk E f d (Entries es) pre st
            = map_sum id (append_out st) (walk E f d (Entries es) pre empty_out)"
      using 2 [rule_format, of st] by simp
  qed
next
  case (3 E f d pre tot idx st0)
  show ?case by simp
next
  case (4 E f d pre tot idx p ps st0)
  let ?il = "int idx = int tot - 1"
  let ?ln = "\<lparr>lines = [entry_line pre ?il p], collected = []\<rparr>"
  let ?pre = "pre @ (if ?il then cont_last else cont_mid)"
  let ?W = "walk E f (d @ [name p]) (iterdir p) ?pre empty_out"
  let ?L = "walk_loop E f d pre tot (Suc idx) ps empty_out"
  let ?st1 = "st0\<lparr>lines := lines st0 @ [entry_line pre ?il p]\<rparr>"
  show ?case
  proof (cases "is_dir p")
    case True
    note P = 4(1) [OF refl refl True, rule_format]
    have step: "walk_loop E f d pre tot idx (p # ps) st
          = (case ?W of Inl e \<Rightarrow> Inl e
             | Inr a \<Rightarrow> map_sum id (append_out (append_out (append_out st ?ln) a)) ?L)" for st
    proof (cases ?W)
      case (Inl e)
      then show ?thesis using True P [of "st\<lparr>lines := lines st @ [entry_line pre ?il p]\<rparr>"]
        by (simp add: Let_def)
    next
      case (Inr a)
      have w0: "walk E f (d @ [name p]) (iterdir p) ?pre ?st1 = Inr (append_out ?st1 a)"
        using P [of ?st1] Inr by simp
      note Q = 4(2) [OF refl refl True w0, rule_format]
      have "walk E f (d @ [name p]) (iterdir p) ?pre (st\<lparr>lines := lines st @ [entry_line pre ?il p]\<rparr>)
             = Inr (append_out (append_out st ?ln) a)"
        using P [of "st\<lparr>lines := lines st @ [entry_line pre ?il p]\<rparr>"] Inr
        by (simp add: append_out_line)
      then show ?thesis using True Inr Q [of "append_out (append_out st ?ln) a"]
        by (simp add: Let_def)
    qed
    show ?thesis
    proof
      fix st
      show "walk_loop E f d pre tot idx (p # ps) st
           = map_sum id (append_out st) (walk_loop E f d pre tot idx (p # ps) empty_out)"
        unfolding step [of st] step [of empty_out]
        by (cases ?W) (simp_all add: map_sum_append_comp append_out_assoc)
    qed
  next
    case False
    show ?thesis
    proof (cases "bundled E p")
      case True
      note Q = 4(3) [OF refl refl False True, rule_format]
      have step: "walk_loop E f d pre tot idx (p # ps) st
          = map_sum id (append_out (append_out st \<lparr>lines = [entry_line pre ?il p], collected = [d @ [name p]]\<rparr>)) ?L" for st
        using False True
          Q [of "append_out st \<lparr>lines = [entry_line pre ?il p], collected = [d @ [name p]]\<rparr>"]
        by (simp add: Let_def append_out_both)
      show ?thesis
      proof
        fix st
        show "walk_loop E f d pre tot idx (p # ps) st
           = map_sum id (append_out st) (walk_loop E f d pre tot idx (p # ps) empty_out)"
          unfolding step [of st] step [of empty_out]
          by (simp add: map_sum_append_comp)
      qed
    next
      case nb: False
      note Q = 4(4) [OF refl refl False nb, rule_format]
      have step: "walk_loop E f d pre tot idx (p # ps) st
          = map_sum id (append_out (append_out st ?ln)) ?L" for st
        using False nb Q [of "append_out st ?ln"]
        by (simp add: Let_def append_out_line)
      show ?thesis
      proof
        fix st
        show "walk_loop E f d pre tot idx (p # ps) st
           = map_sum id (append_out st) (walk_loop E f d pre tot idx (p # ps) empty_out)"
          unfolding step [of st] step [of empty_out]
          by (simp add: map_sum_append_comp)
      qed
    qed
  qed
qed


lemma walk_frame:
  "walk E f d l pre st = map_sum id (append_out st) (walk E f d l pre empty_out)"
  using walk_frame_aux(1) [of E f d l pre] by blast

lemma walk_loop_frame:
  "walk_loop E f d pre tot idx ps st
     = map_sum id (append_out st) (walk_loop E f d pre tot idx ps empty_out)"
  using walk_frame_aux(2) [of E f d pre tot idx ps] by blast

lemma walk_grows:
  assumes "walk E f d l pre st = Inr st'"
  shows "\<exists>a. st' = append_out st a"
  using assms walk_frame [of E f d l pre st]
  by (cases "walk E f d l pre empty_out") auto

lemma walk_loop_grows:
  assumes "walk_loop E f d pre tot idx ps st = Inr st'"
  shows "\<exists>a. st' = append_out st a"
  using assms walk_loop_frame [of E f d pre tot idx ps st]
  by (cases "walk_loop E f d pre tot idx ps empty_out") auto

lemma walk_loop_cons:
  "walk_loop E f d pre tot idx (p # ps) st
     = (case walk_loop E f d pre tot idx [p] st of
          Inl e \<Rightarrow> Inl e
        | Inr st1 \<Rightarrow> walk_loop E f d pre tot (Suc idx) ps st1)"
  by (simp add: Let_def split: sum.splits)

lemma visited_below:
  assumes "visited E f (d @ [name q]) (iterdir q) d' l'"
    and "q \<in> set (visible E f d (sorted_entries es))" and "is_dir q"
  shows "visited E f d (Entries es) d' l'"
  using assms
proof (induction rule: visited.induct)
  case start
  show ?case using visited.descend [OF visited.start] start by blast
next
  case (descend d' es' p)
  show ?case using visited.descend [OF descend(4) descend(2) descend(3)] descend by blast
qed

lemma selected_below:
  assumes "selected E f (d @ [name q]) (iterdir q) x"
    and "q \<in> set (visible E f d (sorted_entries es))" and "is_dir q"
  shows "selected E f d (Entries es) x"
  using assms by (auto elim!: selected.cases intro: selected.intros visited_below)

lemma loop_single_lines:
  assumes "walk_loop E f d pre tot idx [p] st = Inr st1"
  shows "entry_line pre (int idx = int tot - 1) p \<in> set (lines st1)
    \<and> set (lines st) \<subseteq> set (lines st1) \<and> set (collected st) \<subseteq> set (collected st1)
    \<and> (\<not> is_dir p \<and> bundled E p \<longrightarrow> d @ [name p] \<in> set (collected st1))"
proof (cases "is_dir p")
  case True
  let ?st1 = "st\<lparr>lines := lines st @ [entry_line pre (int idx = int tot - 1) p]\<rparr>"
  from True obtain st2 where
    "walk E f (d @ [name p]) (iterdir p)
       (pre @ (if int idx = int tot - 1 then cont_last else cont_mid)) ?st1 = Inr st2"
    and "st1 = st2"
    using assms by (auto simp: Let_def split: sum.splits)
  then obtain a where "st1 = append_out ?st1 a" using walk_grows by blast
  then show ?thesis using True by (auto simp: append_out_def)
next
  case False
  then show ?thesis using assms by (auto simp: Let_def split: if_splits)
qed

lemma loop_single_dir:
  assumes "walk_loop E f d pre tot idx [q] st = Inr st1" and "is_dir q"
  shows "\<exists>pre2 st2. walk E f (d @ [name q]) (iterdir q) pre2 st2 = Inr st1"
  using assms by (auto simp: Let_def split: sum.splits)

text \<open>Every entry the loop runs over is listed, and bundled when the rule says so.\<close>

lemma loop_lists_entries:
  assumes "walk_loop E f d pre tot idx ps st = Inr st'" and "p \<in> set ps"
  shows "(\<exists>il. entry_line pre il p \<in> set (lines st'))
       \<and> (\<not> is_dir p \<and> bundled E p \<longrightarrow> d @ [name p] \<in> set (collected st'))"
  using assms
proof (induction ps arbitrary: idx st)
  case Nil
  then show ?case by simp
next
  case (Cons q qs)
  from Cons.prems(1) obtain st1 where
    one: "walk_loop E f d pre tot idx [q] st = Inr st1"
    and rest: "walk_loop E f d pre tot (Suc idx) qs st1 = Inr st'"
    by (subst (asm) walk_loop_cons) (auto split: sum.splits)
  from walk_loop_grows [OF rest] obtain a where a: "st' = append_out st1 a" by blast
  show ?case
  proof (cases "p = q")
    case True
    then show ?thesis using loop_single_lines [OF one] a by (auto simp: append_out_def)
  next
    case False
    then have "p \<in> set qs" using Cons.prems(2) by simp
    from Cons.IH [OF rest this] show ?thesis .
  qed
qed

lemma loop_visits_dirs:
  assumes "walk_loop E f d pre tot idx ps st = Inr st'" and "q \<in> set ps" and "is_dir q"
  shows "\<exists>pre2 st2 st2'. walk E f (d @ [name q]) (iterdir q) pre2 st2 = Inr st2'
           \<and> set (lines st2') \<subseteq> set (lines st') \<and> set (collected st2') \<subseteq> set (collected st')"
  using assms
proof (induction ps arbitrary: idx st)
  case Nil
  then show ?case by simp
next
  case (Cons r rs)
  from Cons.prems(1) obtain st1 where
    one: "walk_loop E f d pre tot idx [r] st = Inr st1"
    and rest: "walk_loop E f d pre tot (Suc idx) rs st1 = Inr st'"
    by (subst (asm) walk_loop_cons) (auto split: sum.splits)
  from walk_loop_grows [OF rest] obtain a where a: "st' = append_out st1 a" by blast
  show ?case
  proof (cases "q = r")
    case True
    with loop_single_dir [OF one] Cons.prems(3) obtain pre2 st2 where
      "walk E f (d @ [name q]) (iterdir q) pre2 st2 = Inr st1" by blast
    moreover have "set (lines st1) \<subseteq> set (lines st')" "set (collected st1) \<subseteq> set (collected st')"
      using a by (auto simp: append_out_def)
    ultimately show ?thesis by blast
  next
    case False
    then have "q \<in> set rs" using Cons.prems(2) by simp
    from Cons.IH [OF rest this Cons.prems(3)] show ?thesis .
  qed
qed

lemma visited_walked:
  assumes "visited E f d l d' l'" and "walk E f d l pre st = Inr st'"
  shows "\<exists>pre2 st2 st2'. walk E f d' l' pre2 st2 = Inr st2'
           \<and> set (lines st2') \<subseteq> set (lines st') \<and> set (collected st2') \<subseteq> set (collected st')"
  using assms
proof (induction rule: visited.induct)
  case start
  then show ?case by blast
next
  case (descend d1 es q)
  from descend.IH [OF descend.prems] obtain pre2 st2 st2' where
    w: "walk E f d1 (Entries es) pre2 st2 = Inr st2'"
    and s: "set (lines st2') \<subseteq> set (lines st')" "set (collected st2') \<subseteq> set (collected st')"
    by blast
  from w have "walk_loop E f d1 pre2 (length (visible E f d1 (sorted_entries es))) 0
                 (visible E f d1 (sorted_entries es)) st2 = Inr st2'" by simp
  from loop_visits_dirs [OF this descend.hyps(2) descend.hyps(3)] s show ?case
    by (meson subset_trans)
qed

lemma walk_lists_and_bundles:
  assumes "walk E f d l pre st = Inr st'" and "visited E f d l d' (Entries es)"
    and "p \<in> set (visible E f d' (sorted_entries es))"
  shows "(\<exists>pre' il. entry_line pre' il p \<in> set (lines st'))
       \<and> (\<not> is_dir p \<and> bundled E p \<longrightarrow> d' @ [name p] \<in> set (collected st'))"
proof -
  from visited_walked [OF assms(2) assms(1)] obtain pre2 st2 st2' where
    w: "walk E f d' (Entries es) pre2 st2 = Inr st2'"
    and s: "set (lines st2') \<subseteq> set (lines st')" "set (collected st2') \<subseteq> set (collected st')"
    by blast
  from w have "walk_loop E f d' pre2 (length (visible E f d' (sorted_entries es))) 0
                 (visible E f d' (sorted_entries es)) st2 = Inr st2'" by simp
  from loop_lists_entries [OF this assms(3)] s show ?thesis by blast
qed

text \<open>Everything in the bundle list was there before or has been selected.\<close>

lemma walk_collects_selected:
  "walk E f d l pre st = Inr st' \<longrightarrow>
     (\<forall>x\<in>set (collected st'). x \<in> set (collected st) \<or> selected E f d l x)"
  "walk_loop E f d pre tot idx ps st = Inr st' \<longrightarrow>
     (\<forall>x\<in>set (collected st'). x \<in> set (collected st)
        \<or> (\<exists>p\<in>set ps. \<not> is_dir p \<and> bundled E p \<and> x = d @ [name p])
        \<or> (\<exists>q\<in>set ps. is_dir q \<and> selected E f (d @ [name q]) (iterdir q) x))"
proof (induction E f d l pre st and E f d pre tot idx ps st arbitrary: st' and st'
    rule: walk_walk_loop.induct)
  case (1 E f d e pre st)
  show ?case by (cases e) auto
next
  case (2 E f d es pre st)
  show ?case
  proof (intro impI ballI)
    fix x
    assume w: "walk E f d (Entries es) pre st = Inr st'" and x: "x \<in> set (collected st')"
    let ?vis = "visible E f d (sorted_entries es)"
    from w have "walk_loop E f d pre (length ?vis) 0 ?vis st = Inr st'" by simp
    with 2 [of st'] x consider "x \<in> set (collected st)"
      | p where "p \<in> set ?vis" "\<not> is_dir p" "bundled E p" "x = d @ [name p]"
      | q where "q \<in> set ?vis" "is_dir q" "selected E f (d @ [name q]) (iterdir q) x"
      by blast
    then show "x \<in> set (collected st) \<or> selected E f d (Entries es) x"
    proof cases
      case 1
      then show ?thesis by simp
    next
      case 2
      then show ?thesis using selected.intros [OF visited.start, of p E f d es] by simp
    next
      case 3
      then show ?thesis using selected_below by blast
    qed
  qed
next
  case (3 E f d pre tot idx st)
  show ?case by auto
next
  case (4 E f d pre tot idx p ps st)
  let ?il = "int idx = int tot - 1"
  let ?st1 = "st\<lparr>lines := lines st @ [entry_line pre ?il p]\<rparr>"
  let ?pre = "pre @ (if ?il then cont_last else cont_mid)"
  show ?case
  proof (intro impI ballI)
    fix x
    assume w: "walk_loop E f d pre tot idx (p # ps) st = Inr st'"
      and x: "x \<in> set (collected st')"
    show "x \<in> set (collected st)
        \<or> (\<exists>r\<in>set (p # ps). \<not> is_dir r \<and> bundled E r \<and> x = d @ [name r])
        \<or> (\<exists>q\<in>set (p # ps). is_dir q \<and> selected E f (d @ [name q]) (iterdir q) x)"
    proof (cases "is_dir p")
      case True
      from w True obtain st2 where
        w1: "walk E f (d @ [name p]) (iterdir p) ?pre ?st1 = Inr st2"
        and w2: "walk_loop E f d pre tot (Suc idx) ps st2 = Inr st'"
        by (auto simp: Let_def split: sum.splits)
      from 4(2) [OF refl refl True w1, of st'] w2 x
      consider "x \<in> set (collected st2)"
        | "\<exists>r\<in>set ps. \<not> is_dir r \<and> bundled E r \<and> x = d @ [name r]"
        | "\<exists>q\<in>set ps. is_dir q \<and> selected E f (d @ [name q]) (iterdir q) x"
        by blast
      then show ?thesis
      proof cases
        case 1
        with 4(1) [OF refl refl True, of st2] w1
        have "x \<in> set (collected ?st1) \<or> selected E f (d @ [name p]) (iterdir p) x" by blast
        then show ?thesis using True by auto
      next
        case 2
        then show ?thesis by auto
      next
        case 3
        then show ?thesis by auto
      qed
    next
      case False
      show ?thesis
      proof (cases "bundled E p")
        case True
        from w False True have
          w2: "walk_loop E f d pre tot (Suc idx) ps
                 (?st1\<lparr>collected := collected ?st1 @ [d @ [name p]]\<rparr>) = Inr st'"
          by (simp add: Let_def)
        from 4(3) [OF refl refl False True, of st'] w2 x show ?thesis using False True by auto
      next
        case nb: False
        from w False nb have
          w2: "walk_loop E f d pre tot (Suc idx) ps ?st1 = Inr st'"
          by (simp add: Let_def)
        from 4(4) [OF refl refl False nb, of st'] w2 x show ?thesis by auto
      qed
    qed
  qed
qed

section \<open>The inclusion rule\<close>

lemma build_Inr:
  "build_tree_and_collect_files f rn root F t b = Inr (tree, files) \<longleftrightarrow>
     (\<exists>st. walk_root f rn root F t b = Inr st \<and> tree = join_lines (lines st) \<and> files = collected st)"
  by (auto simp: build_tree_and_collect_files_def split: sum.splits)

lemma bundled_closure:
  "bundled (closure_env F t b) p
     \<longleftrightarrow> lower (suffix (name p)) \<in> allowed_exts F \<or> name p \<in> include_names F"
  by (simp add: bundled_def closure_env_def)

text \<open>
  C1. When the run returns, take any entry that is shown in a directory the traversal
  visits (so it is no symbolic link, and is not excluded, ignored or named like an
  output) and that is no directory: its root-relative path is in the bundle list if
  and only if the lowercased suffix of its name is in the allowed extensions or its
  name is in the always-include set.
\<close>

theorem inclusion_rule:
  assumes "build_tree_and_collect_files fnmatch root_name root F tree_output bundle_output
             = Inr (tree, files)"
    and "visited (closure_env F tree_output bundle_output) fnmatch [] root dir_path (Entries es)"
    and "p \<in> set (visible (closure_env F tree_output bundle_output) fnmatch dir_path
                     (sorted_entries es))"
    and "\<not> is_dir p"
  shows "dir_path @ [name p] \<in> set files
     \<longleftrightarrow> lower (suffix (name p)) \<in> allowed_exts F \<or> name p \<in> include_names F"
proof -
  let ?E = "closure_env F tree_output bundle_output"
  from assms(1) obtain st where
    w: "walk ?E fnmatch [] root [] \<lparr>lines = [root_name @ ''/''], collected = []\<rparr> = Inr st"
    and files: "files = collected st"
    by (auto simp: build_Inr walk_root_def)
  show ?thesis
  proof
    assume "dir_path @ [name p] \<in> set files"
    with walk_collects_selected(1)
           [of ?E fnmatch "[]" root "[]" "\<lparr>lines = [root_name @ ''/''], collected = []\<rparr>" st]
         w files
    have "selected ?E fnmatch [] root (dir_path @ [name p])" by auto
    then obtain d1 p1 where "dir_path @ [name p] = d1 @ [name p1]" and "bundled ?E p1"
      by (auto elim: selected.cases)
    then have "bundled ?E p" by (simp add: bundled_def)
    then show "lower (suffix (name p)) \<in> allowed_exts F \<or> name p \<in> include_names F"
      by (simp add: bundled_closure)
  next
    assume "lower (suffix (name p)) \<in> allowed_exts F \<or> name p \<in> include_names F"
    then have "bundled ?E p" by (simp add: bundled_closure)
    with walk_lists_and_bundles [OF w assms(2) assms(3)] assms(4) files
    show "dir_path @ [name p] \<in> set files" by blast
  qed
qed

text \<open>
  Extensions \<open>.md\<close>, always-include \<open>Dockerfile\<close>: in \<open>docs\<close>, \<open>readme.MD\<close> is bundled
  and \<open>script.py\<close> is listed but not bundled.
\<close>

theorem inclusion_rule_witness:
  "build_tree_and_collect_files wildcard_match ''root''
       (Entries [RegularFile ''Dockerfile'',
                 Directory ''docs'' (Entries [RegularFile ''readme.MD'', RegularFile ''script.py''])])
       md_filters [''tree.txt''] [''all_texts.txt'']
     = Inr (''root/'' @ [CHR 0x0A] @ branch_mid @ ''docs/'' @ [CHR 0x0A]
              @ cont_mid @ branch_mid @ ''readme.MD'' @ [CHR 0x0A]
              @ cont_mid @ branch_last @ ''script.py'' @ [CHR 0x0A]
              @ branch_last @ ''Dockerfile'',
            [[''docs'', ''readme.MD''], [''Dockerfile'']])
   \<and> [''docs'', ''script.py''] \<notin> set [[''docs'', ''readme.MD''], [''Dockerfile'']]
   \<and> lower (suffix ''script.py'') \<notin> allowed_exts md_filters
   \<and> ''script.py'' \<notin> include_names md_filters
   \<and> [''docs'', ''readme.MD''] \<in> set [[''docs'', ''readme.MD''], [''Dockerfile'']]
   \<and> lower (suffix ''readme.MD'') \<in> allowed_exts md_filters"
proof -
  let ?docs = "Directory ''docs'' (Entries [RegularFile ''readme.MD'', RegularFile ''script.py''])"
  let ?root = "Entries [RegularFile ''Dockerfile'', ?docs]"
  let ?E = "closure_env md_filters [''tree.txt''] [''all_texts.txt'']"
  have b: "build_tree_and_collect_files wildcard_match ''root'' ?root
       md_filters [''tree.txt''] [''all_texts.txt'']
     = Inr (''root/'' @ [CHR 0x0A] @ branch_mid @ ''docs/'' @ [CHR 0x0A]
              @ cont_mid @ branch_mid @ ''readme.MD'' @ [CHR 0x0A]
              @ cont_mid @ branch_last @ ''script.py'' @ [CHR 0x0A]
              @ branch_last @ ''Dockerfile'',
            [[''docs'', ''readme.MD''], [''Dockerfile'']])"
    by (simp add: eval_defs md_filters_def)
  have "visited ?E wildcard_match [] ?root ([] @ [name ?docs]) (iterdir ?docs)"
    by (rule visited.descend [OF visited.start])
       (simp_all add: eval_defs md_filters_def)
  then have v: "visited ?E wildcard_match [] ?root [''docs'']
                  (Entries [RegularFile ''readme.MD'', RegularFile ''script.py''])"
    by simp
  have m: "RegularFile ''script.py'' \<in> set (visible ?E wildcard_match [''docs'']
             (sorted_entries [RegularFile ''readme.MD'', RegularFile ''script.py'']))"
    by (simp add: eval_defs md_filters_def)
  have m2: "RegularFile ''readme.MD'' \<in> set (visible ?E wildcard_match [''docs'']
             (sorted_entries [RegularFile ''readme.MD'', RegularFile ''script.py'']))"
    by (simp add: eval_defs md_filters_def)
  show ?thesis
    using b inclusion_rule [OF b v m] inclusion_rule [OF b v m2]
    by (simp add: md_filters_def)
qed

lemma shown_file:
  "\<not> is_dir p \<Longrightarrow>
   shown E f d p \<longleftrightarrow> name p \<notin> skip_names E \<and> \<not> matches_any_glob f (d @ [name p]) (ignore_globs E)"
  by (simp add: shown_def)

text \<open>
  C10. When the run returns, take any entry of a visited directory that is no symbolic
  link and no directory, whose name is in the excluded names, is not the last part of
  an output path and matches no ignore glob: it is shown, a line with its name is in
  the tree, and if it satisfies the inclusion rule its path is in the bundle list.
\<close>

theorem excluded_names_spare_files:
  assumes "walk_root fnmatch root_name root F tree_output bundle_output = Inr st"
    and "visited (closure_env F tree_output bundle_output) fnmatch [] root dir_path (Entries es)"
    and "p \<in> set es" and "\<not> is_symlink p" and "\<not> is_dir p"
    and "name p \<in> excludes F"
    and "name p \<notin> {path_name tree_output, path_name bundle_output}"
    and "\<not> matches_any_glob fnmatch (dir_path @ [name p]) (ignore_globs F)"
  shows "p \<in> set (visible (closure_env F tree_output bundle_output) fnmatch dir_path
                     (sorted_entries es))
       \<and> (\<exists>prefix is_last.
            prefix @ (if is_last then branch_last else branch_mid) @ name p \<in> set (lines st))
       \<and> (lower (suffix (name p)) \<in> allowed_exts F \<or> name p \<in> include_names F
            \<longrightarrow> dir_path @ [name p] \<in> set (collected st))"
proof -
  let ?E = "closure_env F tree_output bundle_output"
  have "shown ?E fnmatch dir_path p"
    using assms(5,7,8) by (simp add: shown_file) (simp add: closure_env_def)
  then have vis: "p \<in> set (visible ?E fnmatch dir_path (sorted_entries es))"
    using assms(3,4) by (simp add: visible_filter sorted_entries_def)
  from assms(1) have
    w: "walk ?E fnmatch [] root [] \<lparr>lines = [root_name @ ''/''], collected = []\<rparr> = Inr st"
    by (simp add: walk_root_def)
  from walk_lists_and_bundles [OF w assms(2) vis] obtain pre' il where
    l: "entry_line pre' il p \<in> set (lines st)"
    and c: "\<not> is_dir p \<and> bundled ?E p \<longrightarrow> dir_path @ [name p] \<in> set (collected st)"
    by blast
  from l assms(5) have
    "pre' @ (if il then branch_last else branch_mid) @ name p \<in> set (lines st)"
    by (simp add: entry_line_def)
  then have "\<exists>prefix is_last.
      prefix @ (if is_last then branch_last else branch_mid) @ name p \<in> set (lines st)"
    by blast
  with vis c assms(5) show ?thesis by (simp add: bundled_closure)
qed

text \<open>
  The excluded names are \<open>build\<close> and \<open>venv\<close>: the directory \<open>build\<close> is left out, the
  files \<open>build\<close> and \<open>venv\<close> in \<open>src\<close> are listed, and \<open>build\<close>, an always-include name,
  is bundled.
\<close>

theorem excluded_names_spare_files_witness:
  "walk_root wildcard_match ''root''
       (Entries [Directory ''build'' (Entries [RegularFile ''x.py'']),
                 Directory ''src'' (Entries [RegularFile ''build'', RegularFile ''venv''])])
       \<lparr>excludes = {''build'', ''venv''}, ignore_globs = {''*.map''},
         allowed_exts = {''.py''}, include_names = {''build''}\<rparr>
       [''tree.txt''] [''all_texts.txt'']
     = Inr \<lparr>lines = [''root/'', branch_last @ ''src/'',
                      cont_last @ branch_mid @ ''build'', cont_last @ branch_last @ ''venv''],
             collected = [[''src'', ''build'']]\<rparr>
   \<and> cont_last @ branch_mid @ ''build''
       \<in> set [''root/'', branch_last @ ''src/'',
              cont_last @ branch_mid @ ''build'', cont_last @ branch_last @ ''venv'']
   \<and> [''src'', ''build''] \<in> set [[''src'', ''build'']]"
proof -
  let ?src = "Directory ''src'' (Entries [RegularFile ''build'', RegularFile ''venv''])"
  let ?root = "Entries [Directory ''build'' (Entries [RegularFile ''x.py'']), ?src]"
  let ?F = "\<lparr>excludes = {''build'', ''venv''}, ignore_globs = {''*.map''},
         allowed_exts = {''.py''}, include_names = {''build''}\<rparr>"
  let ?E = "closure_env ?F [''tree.txt''] [''all_texts.txt'']"
  have b: "walk_root wildcard_match ''root'' ?root ?F [''tree.txt''] [''all_texts.txt'']
     = Inr \<lparr>lines = [''root/'', branch_last @ ''src/'',
                      cont_last @ branch_mid @ ''build'', cont_last @ branch_last @ ''venv''],
             collected = [[''src'', ''build'']]\<rparr>"
    by (simp add: eval_defs wildcard_match_def)
  have "visited ?E wildcard_match [] ?root ([] @ [name ?src]) (iterdir ?src)"
    by (rule visited.descend [OF visited.start]) (simp_all add: eval_defs)
  then have v: "visited ?E wildcard_match [] ?root [''src'']
                  (Entries [RegularFile ''build'', RegularFile ''venv''])"
    by simp
  have g: "\<not> matches_any_glob wildcard_match ([''src''] @ [name (RegularFile ''build'')])
              (ignore_globs ?F)"
    by (simp add: eval_defs)
  show ?thesis
    using b excluded_names_spare_files [OF b v _ _ _ _ _ g]
    by (simp add: path_name_def)
qed

section \<open>Order of the entries\<close>
















end
